theory Spec2Isabelle
  imports Main "HOL-Library.Code_Target_Nat"
begin

section \<open>Characters and strings of the source language\<close>

text \<open>
  A Python \<^verbatim>\<open>str\<close> is a sequence of Unicode code points, so a character is modelled by
  its code point and a string by a list of code points.  Of a character the loader
  observes only its identity (comparison with \<^verbatim>\<open>'.'\<close> and \<^verbatim>\<open>'0'\<close>), the result of
  \<^verbatim>\<open>str.isdigit()\<close> and the result of \<^verbatim>\<open>int()\<close>.
\<close>

type_synonym pychar = nat
type_synonym pystr = "pychar list"

definition pystr_of :: "string \<Rightarrow> pystr" where
  "pystr_of cs = map of_char cs"

definition DOT :: pychar where
  "DOT = 46"

definition ZERO :: pychar where
  "ZERO = 48"

text \<open>
  The built-ins \<^verbatim>\<open>str.isdigit\<close> and \<^verbatim>\<open>int\<close> read the Unicode character database.
  A character with the property Numeric_Type=Decimal (general category Nd) belongs to a
  block of ten consecutive code points holding the values 0 to 9; \<open>decimal_zeros\<close>
  lists the first code point of each block (Unicode 15.0).  \<open>digit_ranges\<close> lists the
  characters with Numeric_Type=Digit (superscripts, circled digits and the like), which
  \<^verbatim>\<open>isdigit\<close> accepts and \<^verbatim>\<open>int\<close> rejects.  The results below use the rows for ASCII
  (U+0030) and for the Arabic-Indic digits (U+0660) only.
\<close>

definition decimal_zeros :: "nat list" where
  "decimal_zeros =
    [0x0030, 0x0660, 0x06F0, 0x07C0, 0x0966, 0x09E6, 0x0A66, 0x0AE6, 0x0B66, 0x0BE6,
     0x0C66, 0x0CE6, 0x0D66, 0x0DE6, 0x0E50, 0x0ED0, 0x0F20, 0x1040, 0x1090, 0x17E0,
     0x1810, 0x1946, 0x19D0, 0x1A80, 0x1A90, 0x1B50, 0x1BB0, 0x1C40, 0x1C50, 0xA620,
     0xA8D0, 0xA900, 0xA9D0, 0xA9F0, 0xAA50, 0xABF0, 0xFF10, 0x104A0, 0x10D30, 0x11066,
     0x110F0, 0x11136, 0x111D0, 0x112F0, 0x11450, 0x114D0, 0x11650, 0x116C0, 0x11730,
     0x118E0, 0x11950, 0x11C50, 0x11D50, 0x11DA0, 0x11F50, 0x16A60, 0x16AC0, 0x16B50,
     0x1D7CE, 0x1D7D8, 0x1D7E2, 0x1D7EC, 0x1D7F6, 0x1E140, 0x1E2F0, 0x1E4F0, 0x1E950,
     0x1FBF0]"

definition digit_ranges :: "(nat \<times> nat) list" where
  "digit_ranges =
    [(0x00B2, 0x00B3), (0x00B9, 0x00B9), (0x1369, 0x1371), (0x19DA, 0x19DA),
     (0x2070, 0x2070), (0x2074, 0x2079), (0x2080, 0x2089), (0x2460, 0x2468),
     (0x2474, 0x247C), (0x2488, 0x2490), (0x24EA, 0x24EA), (0x24F5, 0x24FD),
     (0x24FF, 0x24FF), (0x2776, 0x277E), (0x2780, 0x2788), (0x278A, 0x2792),
     (0x10A40, 0x10A43), (0x10E60, 0x10E68), (0x11052, 0x1105A), (0x1F100, 0x1F10A)]"

definition decimal_value :: "pychar \<Rightarrow> nat option" where
  "decimal_value ch =
     (case filter (\<lambda>z. z \<le> ch \<and> ch < z + 10) decimal_zeros of
        [] \<Rightarrow> None
      | z # _ \<Rightarrow> Some (ch - z))"

definition isdigit :: "pychar \<Rightarrow> bool" where
  "isdigit ch \<longleftrightarrow>
     decimal_value ch \<noteq> None \<or> list_ex (\<lambda>(lo, hi). lo \<le> ch \<and> ch \<le> hi) digit_ranges"

text \<open>\<^verbatim>\<open>int(ch)\<close> for a one-character string: \<open>None\<close> is the \<^verbatim>\<open>ValueError\<close> it raises.\<close>

definition py_int :: "pychar \<Rightarrow> int option" where
  "py_int ch = map_option int (decimal_value ch)"

section \<open>The solver engine\<close>

text \<open>
  \<^verbatim>\<open>FastSudokuSolver\<close>: the grid, the three arrays of occupancy masks and the
  cancellation flag.  Cell values and masks are Python integers.
\<close>

record solver =
  board :: "int list list"
  row_masks :: "int list"
  col_masks :: "int list"
  box_masks :: "int list"
  stop_requested :: bool

text \<open>Every \<^verbatim>\<open>raise ValueError(...)\<close> of \<^verbatim>\<open>load_board\<close>, and the one \<^verbatim>\<open>int\<close> raises.\<close>

datatype error =
    BadLength
  | IntLiteral pychar
  | DigitRange int
  | DupRow int nat
  | DupCol int nat
  | DupBox int nat
  | InvalidChar pychar

definition new_solver :: solver where
  "new_solver =
     \<lparr>board = replicate 9 (replicate 9 0), row_masks = replicate 9 0,
      col_masks = replicate 9 0, box_masks = replicate 9 0, stop_requested = False\<rparr>"

text \<open>The two nested \<^verbatim>\<open>range(9)\<close> loops visit the cells in row-major order.\<close>

definition cells :: "(nat \<times> nat) list" where
  "cells = List.product [0..<9] [0..<9]"

definition bit_of :: "int \<Rightarrow> int" where
  "bit_of v = push_bit (nat (v - 1)) 1"

definition box_index :: "nat \<Rightarrow> nat \<Rightarrow> nat" where
  "box_index r c = (r div 3) * 3 + c div 3"

text \<open>
  The four assignments that put \<open>v\<close> into cell \<open>(r, c)\<close> (lines 94 to 97 and 152 to
  155), and the four that take it out again (lines 161 to 164).
\<close>

definition place :: "solver \<Rightarrow> nat \<Rightarrow> nat \<Rightarrow> int \<Rightarrow> solver" where
  "place s r c v =
     (let bit = bit_of v; bidx = box_index r c in
      s\<lparr>board := (board s)[r := (board s ! r)[c := v]],
        row_masks := (row_masks s)[r := or (row_masks s ! r) bit],
        col_masks := (col_masks s)[c := or (col_masks s ! c) bit],
        box_masks := (box_masks s)[bidx := or (box_masks s ! bidx) bit]\<rparr>)"

definition undo :: "solver \<Rightarrow> nat \<Rightarrow> nat \<Rightarrow> int \<Rightarrow> solver" where
  "undo s r c v =
     (let bit = bit_of v; bidx = box_index r c in
      s\<lparr>board := (board s)[r := (board s ! r)[c := 0]],
        row_masks := (row_masks s)[r := and (row_masks s ! r) (not bit)],
        col_masks := (col_masks s)[c := and (col_masks s ! c) (not bit)],
        box_masks := (box_masks s)[bidx := and (box_masks s ! bidx) (not bit)]\<rparr>)"

subsection \<open>Loading a puzzle\<close>

definition reset :: "solver \<Rightarrow> solver" where
  "reset s =
     s\<lparr>board := replicate 9 (replicate 9 0), row_masks := replicate 9 0,
       col_masks := replicate 9 0, box_masks := replicate 9 0\<rparr>"

text \<open>
  The loop of \<^verbatim>\<open>load_board\<close> over the cells still to visit.  An exception leaves the
  object as it is at that moment, so a failure returns the error with that state.
\<close>

fun load_cells :: "pystr \<Rightarrow> (nat \<times> nat) list \<Rightarrow> solver \<Rightarrow> (error \<times> solver) + solver" where
  "load_cells puzzle [] s = Inr s"
| "load_cells puzzle ((i, j) # ps) s =
     (let ch = puzzle ! (i * 9 + j) in
      if isdigit ch \<and> ch \<noteq> ZERO then
        (case py_int ch of
           None \<Rightarrow> Inl (IntLiteral ch, s)
         | Some v \<Rightarrow>
             if \<not> (1 \<le> v \<and> v \<le> 9) then Inl (DigitRange v, s)
             else if and (row_masks s ! i) (bit_of v) \<noteq> 0 then Inl (DupRow v i, s)
             else if and (col_masks s ! j) (bit_of v) \<noteq> 0 then Inl (DupCol v j, s)
             else if and (box_masks s ! box_index i j) (bit_of v) \<noteq> 0
               then Inl (DupBox v (box_index i j), s)
             else load_cells puzzle ps (place s i j v))
      else if ch \<noteq> DOT \<and> ch \<noteq> ZERO then Inl (InvalidChar ch, s)
      else load_cells puzzle ps s)"

definition load_board :: "pystr \<Rightarrow> solver \<Rightarrow> (error \<times> solver) + solver" where
  "load_board puzzle s =
     (if length puzzle \<noteq> 81 then Inl (BadLength, s)
      else load_cells puzzle cells (reset s))"

subsection \<open>Candidates and cell selection\<close>

definition get_candidates :: "solver \<Rightarrow> nat \<Rightarrow> nat \<Rightarrow> int list" where
  "get_candidates s r c =
     (if board s ! r ! c \<noteq> 0 then []
      else
        (let used = or (or (row_masks s ! r) (col_masks s ! c)) (box_masks s ! box_index r c)
         in filter (\<lambda>v. and used (bit_of v) = 0) [1..9]))"

text \<open>
  The scan of \<^verbatim>\<open>_find_mrv_cell\<close> over the cells still to visit, with the loop variables
  \<^verbatim>\<open>best\<close> and \<^verbatim>\<open>best_len\<close>.  \<open>None\<close> is Python's \<^verbatim>\<open>None\<close>.
\<close>

fun mrv_scan ::
  "solver \<Rightarrow> (nat \<times> nat) list \<Rightarrow> (nat \<times> nat \<times> int list) option \<Rightarrow> nat
     \<Rightarrow> (nat \<times> nat \<times> int list) option" where
  "mrv_scan s [] best best_len = best"
| "mrv_scan s ((i, j) # ps) best best_len =
     (if board s ! i ! j = 0 then
        (let cands = get_candidates s i j in
         if cands = [] then None
         else if length cands < best_len then
           (if length cands = 1 then Some (i, j, cands)
            else mrv_scan s ps (Some (i, j, cands)) (length cands))
         else mrv_scan s ps best best_len)
      else mrv_scan s ps best best_len)"

definition find_mrv_cell :: "solver \<Rightarrow> (nat \<times> nat \<times> int list) option" where
  "find_mrv_cell s = mrv_scan s cells None 10"

subsection \<open>Search\<close>

definition stop :: "solver \<Rightarrow> solver" where
  "stop s = s\<lparr>stop_requested := True\<rparr>"

text \<open>
  The flag \<^verbatim>\<open>stop_requested\<close> is written by another thread (through \<^verbatim>\<open>stop\<close>) and read
  by the search at two places only.  The other thread is modelled by a schedule: one
  boolean for each read of the flag, telling whether \<^verbatim>\<open>stop()\<close> has been called since
  the previous read.  An exhausted schedule means that no further call is made.
\<close>

fun poll :: "bool list \<Rightarrow> solver \<Rightarrow> bool list \<times> solver" where
  "poll [] s = ([], s)"
| "poll (b # bs) s = (bs, if b then stop s else s)"

definition all_filled :: "solver \<Rightarrow> bool" where
  "all_filled s = list_all (\<lambda>(r, c). board s ! r ! c \<noteq> 0) cells"

text \<open>
  \<^verbatim>\<open>_solve_recursive\<close>, with the \<^verbatim>\<open>for v in cands\<close> loop as \<open>try_cands\<close>.  The first
  argument bounds the depth of the recursion: \<open>None\<close> means that the bound was reached.
\<close>

fun solve_recursive :: "nat \<Rightarrow> bool list \<Rightarrow> solver \<Rightarrow> (bool \<times> bool list \<times> solver) option"
  and try_cands ::
    "nat \<Rightarrow> nat \<Rightarrow> nat \<Rightarrow> int list \<Rightarrow> bool list \<Rightarrow> solver
       \<Rightarrow> (bool \<times> bool list \<times> solver) option" where
  "solve_recursive 0 env s = None"
| "solve_recursive (Suc n) env s =
     (case poll env s of (env1, s1) \<Rightarrow>
        if stop_requested s1 then Some (False, env1, s1)
        else
          (case find_mrv_cell s1 of
             None \<Rightarrow> Some (all_filled s1, env1, s1)
           | Some (r, c, cands) \<Rightarrow> try_cands n r c cands env1 s1))"
| "try_cands n r c [] env s = Some (False, env, s)"
| "try_cands n r c (v # vs) env s =
     (case poll env s of (env1, s1) \<Rightarrow>
        if stop_requested s1 then Some (False, env1, s1)
        else
          (case solve_recursive n env1 (place s1 r c v) of
             None \<Rightarrow> None
           | Some (ok, env2, s2) \<Rightarrow>
               if ok then Some (True, env2, s2)
               else try_cands n r c vs env2 (undo s2 r c v)))"

definition solve :: "nat \<Rightarrow> bool list \<Rightarrow> solver \<Rightarrow> (bool \<times> bool list \<times> solver) option" where
  "solve n env s = solve_recursive n env (s\<lparr>stop_requested := False\<rparr>)"

definition get_solution :: "solver \<Rightarrow> int list list" where
  "get_solution s = map (\<lambda>row. row) (board s)"

subsection \<open>The puzzle bank\<close>

definition RAW_PUZZLE_BANK :: "(string \<times> pystr list) list" where
  "RAW_PUZZLE_BANK =
    [(''Easy'',
      [pystr_of ''53..7....6..195....98....6.8...6...34..8.3..17...2...6.6....28....419..5....8..79'',
       pystr_of ''..3.2.6..9..3.5..1..18.64....81.29..7.......8..67.82....26.95..8..2.3..9..5.1.3..'',
       pystr_of ''2...8.3...6..7..84.3.5..2.9...1.54.8.........4.27.6...3.1..7.4.72..4..6...4.1...3'']),
     (''Medium'',
      [pystr_of ''1....7.9..3..2...8..96..5....53..9...1..8...26....4...3......1..4......7..7...3..'',
       pystr_of ''6.....8.3.4.7.................5.4.7.3......2.....5.....9..1....8.......2.9.7.....5'']),
     (''Hard'',
      [pystr_of ''8..........36......7..9.2...5...7.......457.....1...3...1....68..85...1..9....4..'',
       pystr_of ''....7..5...21..9..1...28....7...5..1..851.....5....3.......3..68........21.....87''])]"

definition loads :: "pystr \<Rightarrow> bool" where
  "loads puzzle = (case load_board puzzle new_solver of Inl _ \<Rightarrow> False | Inr _ \<Rightarrow> True)"

definition keep_puzzle :: "pystr \<Rightarrow> bool" where
  "keep_puzzle puzzle \<longleftrightarrow>
     length puzzle = 81 \<and> list_all (\<lambda>c. c \<in> set (pystr_of ''0123456789.'')) puzzle
       \<and> loads puzzle"

definition sanitize_puzzle_bank :: "(string \<times> pystr list) list \<Rightarrow> (string \<times> pystr) list" where
  "sanitize_puzzle_bank raw_dict =
     (let bank = concat (map (\<lambda>(difficulty, puzzles).
                    map (\<lambda>puzzle. (difficulty, puzzle)) (filter keep_puzzle puzzles)) raw_dict)
      in if bank \<noteq> [] then bank else [(''Easy'', replicate 81 DOT)])"

definition PUZZLE_BANK :: "(string \<times> pystr) list" where
  "PUZZLE_BANK = sanitize_puzzle_bank RAW_PUZZLE_BANK"

definition same_grid :: "solver \<Rightarrow> solver \<Rightarrow> bool" where
  "same_grid s t \<longleftrightarrow>
     board t = board s \<and> row_masks t = row_masks s \<and> col_masks t = col_masks s
       \<and> box_masks t = box_masks s"

definition free_at :: "solver \<Rightarrow> nat \<Rightarrow> nat \<Rightarrow> int \<Rightarrow> bool" where
  "free_at s r c v \<longleftrightarrow>
     and (row_masks s ! r) (bit_of v) = 0 \<and> and (col_masks s ! c) (bit_of v) = 0
       \<and> and (box_masks s ! box_index r c) (bit_of v) = 0"

definition shaped :: "solver \<Rightarrow> bool" where
  "shaped s \<longleftrightarrow>
     length (board s) = 9 \<and> (\<forall>r<9. length (board s ! r) = 9) \<and> length (row_masks s) = 9
       \<and> length (col_masks s) = 9 \<and> length (box_masks s) = 9"

definition rows_consistent :: "solver \<Rightarrow> bool" where
  "rows_consistent s \<longleftrightarrow>
     (\<forall>r<9. \<forall>v\<in>{1..9}. bit (row_masks s ! r) (nat (v - 1)) \<longleftrightarrow> (\<exists>c<9. board s ! r ! c = v))"

definition cols_consistent :: "solver \<Rightarrow> bool" where
  "cols_consistent s \<longleftrightarrow>
     (\<forall>c<9. \<forall>v\<in>{1..9}. bit (col_masks s ! c) (nat (v - 1)) \<longleftrightarrow> (\<exists>r<9. board s ! r ! c = v))"

definition boxes_consistent :: "solver \<Rightarrow> bool" where
  "boxes_consistent s \<longleftrightarrow>
     (\<forall>b<9. \<forall>v\<in>{1..9}. bit (box_masks s ! b) (nat (v - 1)) \<longleftrightarrow>
        (\<exists>r<9. \<exists>c<9. box_index r c = b \<and> board s ! r ! c = v))"

definition masks_consistent :: "solver \<Rightarrow> bool" where
  "masks_consistent s \<longleftrightarrow> rows_consistent s \<and> cols_consistent s \<and> boxes_consistent s"

definition cells_in_range :: "solver \<Rightarrow> bool" where
  "cells_in_range s \<longleftrightarrow> (\<forall>r<9. \<forall>c<9. 0 \<le> board s ! r ! c \<and> board s ! r ! c \<le> 9)"

definition peers :: "nat \<Rightarrow> nat \<Rightarrow> nat \<Rightarrow> nat \<Rightarrow> bool" where
  "peers r c r' c' \<longleftrightarrow> (r, c) \<noteq> (r', c') \<and> (r = r' \<or> c = c' \<or> box_index r c = box_index r' c')"

definition no_conflict :: "int list list \<Rightarrow> bool" where
  "no_conflict b \<longleftrightarrow>
     (\<forall>r<9. \<forall>c<9. \<forall>r'<9. \<forall>c'<9. peers r c r' c' \<and> b ! r ! c \<noteq> 0 \<longrightarrow> b ! r ! c \<noteq> b ! r' ! c')"

definition grid_inv :: "solver \<Rightarrow> bool" where
  "grid_inv s \<longleftrightarrow> shaped s \<and> cells_in_range s \<and> masks_consistent s \<and> no_conflict (board s)"

definition empties :: "solver \<Rightarrow> nat" where
  "empties s = length (filter (\<lambda>(r, c). board s ! r ! c = 0) cells)"

definition clue_of :: "pychar \<Rightarrow> int" where
  "clue_of ch =
     (if isdigit ch \<and> ch \<noteq> ZERO then (case py_int ch of None \<Rightarrow> 0 | Some v \<Rightarrow> v) else 0)"

definition holds_clues :: "pystr \<Rightarrow> (nat \<times> nat) list \<Rightarrow> solver \<Rightarrow> bool" where
  "holds_clues p rest s \<longleftrightarrow>
     (\<forall>r<9. \<forall>c<9. board s ! r ! c = (if (r, c) \<in> set rest then 0 else clue_of (p ! (r * 9 + c))))"

definition load_post ::
  "pystr \<Rightarrow> (nat \<times> nat) list \<Rightarrow> solver \<Rightarrow> (error \<times> solver) + solver \<Rightarrow> bool" where
  "load_post p ps s res \<longleftrightarrow>
     (case res of
        Inr s' \<Rightarrow> grid_inv s' \<and> holds_clues p [] s' \<and> stop_requested s' = stop_requested s
      | Inl (e, s') \<Rightarrow>
          grid_inv s' \<and> stop_requested s' = stop_requested s \<and>
          (\<exists>pre rest. ps = pre @ rest \<and> rest \<noteq> [] \<and> holds_clues p rest s'))"

text \<open>The engine after \<^verbatim>\<open>load_board\<close> on a new solver, and the inputs the examples use.\<close>

definition loaded :: "pystr \<Rightarrow> solver" where
  "loaded p = (case load_board p new_solver of Inl (e, s) \<Rightarrow> s | Inr s \<Rightarrow> s)"

definition puzzle_full :: pystr where
  "puzzle_full = pystr_of
     ''123456789456789123789123456234567891567891234891234567345678912678912345912345678''"

definition puzzle_one_blank :: pystr where
  "puzzle_one_blank = pystr_of
     ''.23456789456789123789123456234567891567891234891234567345678912678912345912345678''"



text \<open>
  State \<open>t'\<close> differs from \<open>t\<close> at most in cell \<open>(r, c)\<close> and in the masks of row \<open>r\<close>,
  of column \<open>c\<close> and of the box of \<open>(r, c)\<close>.
\<close>

definition touches_only :: "solver \<Rightarrow> solver \<Rightarrow> nat \<Rightarrow> nat \<Rightarrow> bool" where
  "touches_only t t' r c \<longleftrightarrow>
     (\<forall>r'<9. \<forall>c'<9. (r', c') \<noteq> (r, c) \<longrightarrow> board t' ! r' ! c' = board t ! r' ! c')
     \<and> (\<forall>r'<9. r' \<noteq> r \<longrightarrow> row_masks t' ! r' = row_masks t ! r')
     \<and> (\<forall>c'<9. c' \<noteq> c \<longrightarrow> col_masks t' ! c' = col_masks t ! c')
     \<and> (\<forall>b<9. b \<noteq> box_index r c \<longrightarrow> box_masks t' ! b = box_masks t ! b)"


lemma bit_bit_of: "bit (bit_of v) k \<longleftrightarrow> k = nat (v - 1)"
  by (auto simp: bit_of_def bit_exp_iff)

lemma and_bit_of_eq_0: "and m (bit_of v) = 0 \<longleftrightarrow> \<not> bit m (nat (v - 1))"
  by (auto simp: bit_eq_iff [where ?'a = int] bit_and_iff bit_bit_of)

lemma or_and_not_bit_of: "and m (bit_of v) = 0 \<Longrightarrow> and (or m (bit_of v)) (not (bit_of v)) = m"
  by (auto simp: bit_eq_iff [where ?'a = int] bit_and_iff bit_or_iff bit_not_iff bit_bit_of)

lemma and_or3_bit_of:
  "and (or (or a b) c) (bit_of v) = 0 \<longleftrightarrow>
     and a (bit_of v) = 0 \<and> and b (bit_of v) = 0 \<and> and c (bit_of v) = 0"
  by (auto simp: and_bit_of_eq_0 bit_or_iff)

lemma update_same: "xs ! i = a \<Longrightarrow> xs[i := a] = xs"
  by (metis list_update_id)

lemma update_restore:
  assumes "f (g (xs ! i)) = xs ! i"
  shows "xs[i := f ((xs[i := g (xs ! i)]) ! i)] = xs"
proof (cases "i < length xs")
  case True
  then show ?thesis using assms by (simp add: update_same)
next
  case False
  then have "length xs \<le> i" by simp
  then show ?thesis by (simp add: list_update_beyond)
qed

lemma undo_place:
  assumes "board s ! r ! c = 0" "free_at s r c v"
  shows "undo (place s r c v) r c v = s"
proof -
  have b: "(board s)[r := ((board s)[r := (board s ! r)[c := v]] ! r)[c := 0]] = board s"
    using assms(1) update_restore [of "\<lambda>row. row[c := 0]" "\<lambda>row. row[c := v]" "board s" r]
    by (simp add: update_same)
  have m: "\<And>xs i. and (xs ! i) (bit_of v) = 0 \<Longrightarrow>
      xs[i := and ((xs[i := or (xs ! i) (bit_of v)]) ! i) (not (bit_of v))] = xs"
    subgoal for xs i
      using update_restore [of "\<lambda>m. and m (not (bit_of v))" "\<lambda>m. or m (bit_of v)" xs i]
      by (simp add: or_and_not_bit_of)
    done
  show ?thesis
    using assms(2) by (simp add: undo_def place_def Let_def b m free_at_def)
qed

lemma same_grid_refl: "same_grid s s"
  by (simp add: same_grid_def)

lemma same_grid_trans: "same_grid s t \<Longrightarrow> same_grid t u \<Longrightarrow> same_grid s u"
  by (simp add: same_grid_def)

lemma same_grid_undo: "same_grid s t \<Longrightarrow> same_grid (undo s r c v) (undo t r c v)"
  by (simp add: same_grid_def undo_def Let_def)

lemma same_grid_free_at: "same_grid s t \<Longrightarrow> free_at t r c v = free_at s r c v"
  by (simp add: same_grid_def free_at_def)

lemma same_grid_poll: "poll env s = (env1, s1) \<Longrightarrow> same_grid s s1"
  by (cases env) (auto simp: same_grid_def stop_def)

lemma get_candidates_free:
  "v \<in> set (get_candidates s r c) \<Longrightarrow> 1 \<le> v \<and> v \<le> 9 \<and> free_at s r c v"
  by (auto simp: get_candidates_def Let_def and_or3_bit_of free_at_def split: if_splits)

lemma mrv_scan_Some:
  "mrv_scan s ps best bl = Some (r, c, cands) \<Longrightarrow>
     best = Some (r, c, cands) \<or>
     ((r, c) \<in> set ps \<and> board s ! r ! c = 0 \<and> cands = get_candidates s r c)"
proof (induction ps arbitrary: best bl)
  case Nil
  then show ?case by simp
next
  case (Cons p ps)
  obtain i j where p: "p = (i, j)" by (cases p)
  show ?case
    using Cons.prems Cons.IH [of best bl] Cons.IH [of "Some (i, j, get_candidates s i j)" "length (get_candidates s i j)"]
    by (auto simp: p Let_def split: if_splits)
qed

lemma set_cells: "set cells = {0..<9} \<times> {0..<9}"
  by (simp add: cells_def)

lemma find_mrv_cell_Some:
  assumes "find_mrv_cell s = Some (r, c, cands)"
  shows "r < 9" "c < 9" "board s ! r ! c = 0" "cands = get_candidates s r c"
  using mrv_scan_Some [OF assms [unfolded find_mrv_cell_def]] by (auto simp: set_cells)

lemma restore:
  "solve_recursive n env s = Some (False, env', s') \<Longrightarrow> same_grid s s'"
  "try_cands n r c vs env s = Some (False, env', s') \<Longrightarrow> board s ! r ! c = 0 \<Longrightarrow>
     (\<forall>v\<in>set vs. free_at s r c v) \<Longrightarrow> same_grid s s'"
proof (induction n env s and n r c vs env s arbitrary: env' s' and env' s'
    rule: solve_recursive_try_cands.induct)
  case (1 env s)
  then show ?case by simp
next
  case (2 n env s)
  obtain env1 s1 where p: "poll env s = (env1, s1)" by (cases "poll env s")
  note g = same_grid_poll [OF p]
  show ?case
  proof (cases "stop_requested s1")
    case True
    then show ?thesis using "2.prems" p g by simp
  next
    case False
    show ?thesis
    proof (cases "find_mrv_cell s1")
      case None
      then show ?thesis using "2.prems" p g False by simp
    next
      case (Some cell)
      obtain r c cands where cell: "cell = (r, c, cands)" by (cases cell)
      have f: "find_mrv_cell s1 = Some (r, c, cands)" using Some cell by simp
      have t: "try_cands n r c cands env1 s1 = Some (False, env', s')"
        using "2.prems" p False f by simp
      have "same_grid s1 s'"
        using "2.IH" [OF p [symmetric] False f refl refl t]
          find_mrv_cell_Some [OF f] get_candidates_free by blast
      then show ?thesis using g same_grid_trans by blast
    qed
  qed
next
  case (3 n r c env s)
  then show ?case by (simp add: same_grid_refl)
next
  case (4 n r c v vs env s)
  obtain env1 s1 where p: "poll env s = (env1, s1)" by (cases "poll env s")
  note g = same_grid_poll [OF p]
  show ?case
  proof (cases "stop_requested s1")
    case True
    then show ?thesis using "4.prems" p g by simp
  next
    case False
    from "4.prems"(1) p False obtain ok env2 s2 where
      r: "solve_recursive n env1 (place s1 r c v) = Some (ok, env2, s2)"
      by (auto split: option.splits)
    from "4.prems"(1) p False r have ok: "\<not> ok"
      and t: "try_cands n r c vs env2 (undo s2 r c v) = Some (False, env', s')"
      by (auto split: if_splits)
    have b1: "board s1 ! r ! c = 0" using g "4.prems"(2) by (simp add: same_grid_def)
    have f1: "\<forall>w\<in>set (v # vs). free_at s1 r c w"
      using g "4.prems"(3) same_grid_free_at by blast
    have "same_grid (place s1 r c v) s2"
      using "4.IH"(1) [OF p [symmetric] False] r ok by simp
    then have "same_grid (undo (place s1 r c v) r c v) (undo s2 r c v)"
      by (rule same_grid_undo)
    then have u: "same_grid s1 (undo s2 r c v)"
      using undo_place [OF b1] f1 by simp
    have "same_grid (undo s2 r c v) s'"
    proof (rule "4.IH"(2) [OF p [symmetric] False r refl refl ok t])
      show "board (undo s2 r c v) ! r ! c = 0" using u b1 by (simp add: same_grid_def)
      show "\<forall>w\<in>set vs. free_at (undo s2 r c v) r c w"
        using u f1 same_grid_free_at by simp
    qed
    then show ?thesis using g u same_grid_trans by blast
  qed
qed

lemma box_index_less: "r < 9 \<Longrightarrow> c < 9 \<Longrightarrow> box_index r c < 9"
  unfolding box_index_def by presburger

lemma length_row_update:
  "length b = 9 \<Longrightarrow> \<forall>r<9. length (b ! r) = 9 \<Longrightarrow> ra < 9 \<Longrightarrow>
     length (b[r := (b ! r)[c := v]] ! ra) = 9"
  by (cases "ra = r") simp_all

lemma shaped_place: "shaped s \<Longrightarrow> shaped (place s r c v)"
  by (simp add: shaped_def place_def Let_def length_row_update)

lemma shaped_undo: "shaped s \<Longrightarrow> shaped (undo s r c v)"
  by (simp add: shaped_def undo_def Let_def length_row_update)

lemma board_place:
  "shaped s \<Longrightarrow> r < 9 \<Longrightarrow> c < 9 \<Longrightarrow> r' < 9 \<Longrightarrow> c' < 9 \<Longrightarrow>
     board (place s r c v) ! r' ! c' = (if r' = r \<and> c' = c then v else board s ! r' ! c')"
  by (auto simp: shaped_def place_def Let_def nth_list_update)

lemma row_masks_place:
  "shaped s \<Longrightarrow> r < 9 \<Longrightarrow> r' < 9 \<Longrightarrow>
     row_masks (place s r c v) ! r' =
       (if r' = r then or (row_masks s ! r) (bit_of v) else row_masks s ! r')"
  by (auto simp: shaped_def place_def Let_def nth_list_update)

lemma col_masks_place:
  "shaped s \<Longrightarrow> c < 9 \<Longrightarrow> c' < 9 \<Longrightarrow>
     col_masks (place s r c v) ! c' =
       (if c' = c then or (col_masks s ! c) (bit_of v) else col_masks s ! c')"
  by (auto simp: shaped_def place_def Let_def nth_list_update)

lemma box_masks_place:
  "shaped s \<Longrightarrow> r < 9 \<Longrightarrow> c < 9 \<Longrightarrow> b < 9 \<Longrightarrow>
     box_masks (place s r c v) ! b =
       (if b = box_index r c then or (box_masks s ! b) (bit_of v) else box_masks s ! b)"
  by (auto simp: shaped_def place_def Let_def nth_list_update box_index_less)

lemma nat_pred_eq: "1 \<le> v \<Longrightarrow> 1 \<le> w \<Longrightarrow> nat (w - 1) = nat (v - 1) \<longleftrightarrow> w = (v::int)"
  by auto

lemma ex_cell_place:
  assumes "shaped s" "r < 9" "c < 9" "board s ! r ! c = 0" "w \<noteq> 0"
  shows "(\<exists>r'<9. \<exists>c'<9. Q r' c' \<and> board (place s r c v) ! r' ! c' = w) \<longleftrightarrow>
           (Q r c \<and> w = v) \<or> (\<exists>r'<9. \<exists>c'<9. Q r' c' \<and> board s ! r' ! c' = w)"
    (is "?L \<longleftrightarrow> ?A \<or> ?B")
proof
  assume ?L
  then obtain r' c' where h: "r' < 9" "c' < 9" "Q r' c'" "board (place s r c v) ! r' ! c' = w"
    by blast
  show "?A \<or> ?B"
  proof (cases "r' = r \<and> c' = c")
    case True
    then show ?thesis using h assms(1,2,3) by (simp add: board_place)
  next
    case False
    then have "board s ! r' ! c' = w" using h assms(1,2,3) by (auto simp: board_place)
    then show ?thesis using h by blast
  qed
next
  assume "?A \<or> ?B"
  then show ?L
  proof
    assume ?A
    then have "Q r c \<and> board (place s r c v) ! r ! c = w"
      using assms(1,2,3) by (simp add: board_place)
    then show ?L using assms(2,3) by blast
  next
    assume ?B
    then obtain r' c' where h: "r' < 9" "c' < 9" "Q r' c'" "board s ! r' ! c' = w" by blast
    then have "\<not> (r' = r \<and> c' = c)" using assms(4,5) by auto
    then have "board (place s r c v) ! r' ! c' = w" using h assms(1,2,3) by (auto simp: board_place)
    then show ?L using h by blast
  qed
qed

lemma rows_consistent_place:
  assumes "shaped s" "rows_consistent s" "r < 9" "c < 9" "board s ! r ! c = 0" "1 \<le> v" "v \<le> 9"
  shows "rows_consistent (place s r c v)"
  unfolding rows_consistent_def
proof (intro allI impI ballI)
  fix r' :: nat and w :: int assume r': "r' < 9" and w: "w \<in> {1..9::int}"
  have old: "bit (row_masks s ! r') (nat (w - 1)) \<longleftrightarrow> (\<exists>c'<9. board s ! r' ! c' = w)"
    using assms(2) r' w by (simp add: rows_consistent_def)
  have e: "(\<exists>c'<9. board t ! r' ! c' = w) \<longleftrightarrow> (\<exists>a<9. \<exists>c'<9. a = r' \<and> board t ! a ! c' = w)" for t
    using r' by blast
  have "(\<exists>c'<9. board (place s r c v) ! r' ! c' = w) \<longleftrightarrow>
      (r = r' \<and> w = v) \<or> (\<exists>c'<9. board s ! r' ! c' = w)"
    unfolding e using ex_cell_place [OF assms(1,3,4,5), of w "\<lambda>a c'. a = r'" v] w by simp
  then show "bit (row_masks (place s r c v) ! r') (nat (w - 1)) \<longleftrightarrow>
          (\<exists>c'<9. board (place s r c v) ! r' ! c' = w)"
    using old assms(1,3,6) w r'
    by (auto simp: row_masks_place bit_or_iff bit_bit_of nat_pred_eq)
qed

lemma cols_consistent_place:
  assumes "shaped s" "cols_consistent s" "r < 9" "c < 9" "board s ! r ! c = 0" "1 \<le> v" "v \<le> 9"
  shows "cols_consistent (place s r c v)"
  unfolding cols_consistent_def
proof (intro allI impI ballI)
  fix c' :: nat and w :: int assume c': "c' < 9" and w: "w \<in> {1..9::int}"
  have old: "bit (col_masks s ! c') (nat (w - 1)) \<longleftrightarrow> (\<exists>r'<9. board s ! r' ! c' = w)"
    using assms(2) c' w by (simp add: cols_consistent_def)
  have e: "(\<exists>r'<9. board t ! r' ! c' = w) \<longleftrightarrow> (\<exists>r'<9. \<exists>a<9. a = c' \<and> board t ! r' ! a = w)" for t
    using c' by blast
  have "(\<exists>r'<9. board (place s r c v) ! r' ! c' = w) \<longleftrightarrow>
      (c = c' \<and> w = v) \<or> (\<exists>r'<9. board s ! r' ! c' = w)"
    unfolding e using ex_cell_place [OF assms(1,3,4,5), of w "\<lambda>r' a. a = c'" v] w by simp
  then show "bit (col_masks (place s r c v) ! c') (nat (w - 1)) \<longleftrightarrow>
          (\<exists>r'<9. board (place s r c v) ! r' ! c' = w)"
    using old assms(1,4,6) w c'
    by (auto simp: col_masks_place bit_or_iff bit_bit_of nat_pred_eq)
qed

lemma boxes_consistent_place:
  assumes "shaped s" "boxes_consistent s" "r < 9" "c < 9" "board s ! r ! c = 0" "1 \<le> v" "v \<le> 9"
  shows "boxes_consistent (place s r c v)"
  unfolding boxes_consistent_def
proof (intro allI impI ballI)
  fix b :: nat and w :: int assume b: "b < 9" and w: "w \<in> {1..9::int}"
  have old: "bit (box_masks s ! b) (nat (w - 1)) \<longleftrightarrow>
      (\<exists>r'<9. \<exists>c'<9. box_index r' c' = b \<and> board s ! r' ! c' = w)"
    using assms(2) b w by (simp add: boxes_consistent_def)
  have "(\<exists>r'<9. \<exists>c'<9. box_index r' c' = b \<and> board (place s r c v) ! r' ! c' = w) \<longleftrightarrow>
      (box_index r c = b \<and> w = v) \<or> (\<exists>r'<9. \<exists>c'<9. box_index r' c' = b \<and> board s ! r' ! c' = w)"
    using ex_cell_place [OF assms(1,3,4,5), of w "\<lambda>r' c'. box_index r' c' = b" v] w by simp
  then show "bit (box_masks (place s r c v) ! b) (nat (w - 1)) \<longleftrightarrow>
          (\<exists>r'<9. \<exists>c'<9. box_index r' c' = b \<and> board (place s r c v) ! r' ! c' = w)"
    using old assms(1,3,4,6) w b
    by (auto simp: box_masks_place bit_or_iff bit_bit_of nat_pred_eq)
qed

lemma no_conflict_place:
  assumes "shaped s" "masks_consistent s" "no_conflict (board s)" "r < 9" "c < 9"
    "board s ! r ! c = 0" "1 \<le> v" "v \<le> 9" "free_at s r c v"
  shows "no_conflict (board (place s r c v))"
proof -
  have v: "v \<in> {1..9}" using assms(7,8) by simp
  have row: "\<And>c'. c' < 9 \<Longrightarrow> board s ! r ! c' \<noteq> v"
    using assms(2,4,9) v by (auto simp: masks_consistent_def rows_consistent_def free_at_def and_bit_of_eq_0)
  have col: "\<And>r'. r' < 9 \<Longrightarrow> board s ! r' ! c \<noteq> v"
    using assms(2,5,9) v by (auto simp: masks_consistent_def cols_consistent_def free_at_def and_bit_of_eq_0)
  have box: "\<And>r' c'. r' < 9 \<Longrightarrow> c' < 9 \<Longrightarrow> box_index r' c' = box_index r c \<Longrightarrow> board s ! r' ! c' \<noteq> v"
    using assms(2,4,5,9) v box_index_less [OF assms(4,5)]
    by (auto simp: masks_consistent_def boxes_consistent_def free_at_def and_bit_of_eq_0)
  show ?thesis
    unfolding no_conflict_def
  proof (intro allI impI)
    fix a b a' b' :: nat assume lt: "a < 9" "b < 9" "a' < 9" "b' < 9"
      and h: "peers a b a' b' \<and> board (place s r c v) ! a ! b \<noteq> 0"
    have old: "peers a b a' b' \<Longrightarrow> board s ! a ! b \<noteq> 0 \<Longrightarrow> board s ! a ! b \<noteq> board s ! a' ! b'"
      using assms(3) lt by (simp add: no_conflict_def)
    show "board (place s r c v) ! a ! b \<noteq> board (place s r c v) ! a' ! b'"
    proof (cases "a = r \<and> b = c")
      case True
      then have ne: "\<not> (a' = r \<and> b' = c)" using h by (auto simp: peers_def)
      from h True have "a' = r \<or> b' = c \<or> box_index a' b' = box_index r c"
        by (auto simp: peers_def)
      then have "board s ! a' ! b' \<noteq> v"
        using row [of b'] col [of a'] box [of a' b'] lt by auto
      then show ?thesis using True ne assms(1,4,5) lt by (simp add: board_place)
    next
      case False
      note F = False
      show ?thesis
      proof (cases "a' = r \<and> b' = c")
        case True
        from h True have "a = r \<or> b = c \<or> box_index a b = box_index r c"
          by (auto simp: peers_def)
        then have "board s ! a ! b \<noteq> v"
          using row [of b] col [of a] box [of a b] lt by auto
        then show ?thesis using True F assms(1,4,5) lt by (simp add: board_place)
      next
        case False
        then show ?thesis using F h old assms(1,4,5) lt by (auto simp: board_place)
      qed
    qed
  qed
qed

lemma cells_in_range_place:
  assumes "shaped s" "cells_in_range s" "r < 9" "c < 9" "1 \<le> v" "v \<le> 9"
  shows "cells_in_range (place s r c v)"
  using assms by (auto simp: cells_in_range_def board_place)

lemma grid_inv_place:
  assumes "grid_inv s" "r < 9" "c < 9" "board s ! r ! c = 0" "1 \<le> v" "v \<le> 9" "free_at s r c v"
  shows "grid_inv (place s r c v)"
proof -
  have w: "shaped s" and m: "masks_consistent s" using assms(1) by (simp_all add: grid_inv_def)
  have "masks_consistent (place s r c v)"
    using w m assms(2-6) rows_consistent_place cols_consistent_place boxes_consistent_place
    by (simp add: masks_consistent_def)
  moreover have "no_conflict (board (place s r c v))"
    using no_conflict_place [OF w m _ assms(2-7)] assms(1) by (simp add: grid_inv_def)
  moreover have "cells_in_range (place s r c v)"
    using cells_in_range_place [OF w _ assms(2,3,5,6)] assms(1) by (simp add: grid_inv_def)
  ultimately show ?thesis using w shaped_place by (simp add: grid_inv_def)
qed

lemma same_grid_shaped: "same_grid s t \<Longrightarrow> shaped s \<Longrightarrow> shaped t"
  by (simp add: same_grid_def shaped_def)

lemma same_grid_inv: "same_grid s t \<Longrightarrow> grid_inv s \<Longrightarrow> grid_inv t"
  by (simp add: same_grid_def grid_inv_def shaped_def cells_in_range_def masks_consistent_def
      rows_consistent_def cols_consistent_def boxes_consistent_def)

lemma same_grid_empties: "same_grid s t \<Longrightarrow> empties t = empties s"
  by (simp add: same_grid_def empties_def)

lemma same_grid_sym: "same_grid s t \<Longrightarrow> same_grid t s"
  by (simp add: same_grid_def)

lemma grid_inv_shaped: "grid_inv s \<Longrightarrow> shaped s"
  by (simp add: grid_inv_def)

lemma filter_flip_one:
  "distinct xs \<Longrightarrow> x \<in> set xs \<Longrightarrow> P x \<Longrightarrow> \<not> Q x \<Longrightarrow>
     (\<And>y. y \<in> set xs \<Longrightarrow> y \<noteq> x \<Longrightarrow> Q y = P y) \<Longrightarrow>
     length (filter P xs) = Suc (length (filter Q xs))"
proof (induction xs)
  case Nil
  then show ?case by simp
next
  case (Cons a xs)
  show ?case
  proof (cases "a = x")
    case True
    then have nx: "x \<notin> set xs" using Cons.prems by simp
    have "filter Q xs = filter P xs"
    proof (rule filter_cong [OF refl])
      fix y assume "y \<in> set xs"
      then show "Q y = P y" using Cons.prems(5) [of y] nx by auto
    qed
    then show ?thesis using True Cons.prems by simp
  next
    case False
    have "length (filter P xs) = Suc (length (filter Q xs))"
      using Cons.IH Cons.prems False by auto
    moreover have "Q a = P a" using Cons.prems(5) [of a] False by simp
    ultimately show ?thesis by simp
  qed
qed

lemma distinct_cells: "distinct cells"
  by (simp add: cells_def distinct_product)

lemma empties_place:
  assumes "shaped s" "r < 9" "c < 9" "board s ! r ! c = 0" "v \<noteq> 0"
  shows "empties s = Suc (empties (place s r c v))"
  unfolding empties_def
proof (rule filter_flip_one [OF distinct_cells, of "(r, c)"])
  show "(r, c) \<in> set cells" using assms(2,3) by (simp add: set_cells)
  show "case (r, c) of (r, c) \<Rightarrow> board s ! r ! c = 0" using assms(4) by simp
  show "\<not> (case (r, c) of (r', c') \<Rightarrow> board (place s r c v) ! r' ! c' = 0)"
    using assms by (simp add: board_place)
  show "(case y of (r', c') \<Rightarrow> board (place s r c v) ! r' ! c' = 0) =
      (case y of (r', c') \<Rightarrow> board s ! r' ! c' = 0)" if "y \<in> set cells" "y \<noteq> (r, c)" for y
    using that assms(1,2,3) by (auto simp: set_cells board_place)
qed

lemma empties_le: "empties s \<le> 81"
proof -
  have "length cells = 81" by (simp add: cells_def)
  moreover have "length (filter (\<lambda>(r, c). board s ! r ! c = 0) cells) \<le> length cells"
    by (rule length_filter_le)
  ultimately show ?thesis by (simp add: empties_def)
qed

lemma shaped_poll: "poll env s = (env1, s1) \<Longrightarrow> shaped s \<Longrightarrow> shaped s1"
  using same_grid_poll same_grid_shaped by blast

lemma terminates:
  "shaped s \<Longrightarrow> empties s < n \<Longrightarrow> \<exists>res. solve_recursive n env s = Some res"
  "shaped s \<Longrightarrow> r < 9 \<Longrightarrow> c < 9 \<Longrightarrow> board s ! r ! c = 0 \<Longrightarrow>
     (\<forall>v\<in>set vs. v \<noteq> 0 \<and> free_at s r c v) \<Longrightarrow> empties s \<le> n \<Longrightarrow>
     \<exists>res. try_cands n r c vs env s = Some res"
proof (induction n env s and n r c vs env s rule: solve_recursive_try_cands.induct)
  case (1 env s)
  then show ?case by simp
next
  case (2 n env s)
  obtain env1 s1 where p: "poll env s = (env1, s1)" by (cases "poll env s")
  note g = same_grid_poll [OF p]
  show ?case
  proof (cases "stop_requested s1")
    case True
    then show ?thesis using p by (simp del: split_paired_Ex)
  next
    case False
    show ?thesis
    proof (cases "find_mrv_cell s1")
      case None
      then show ?thesis using p False by (simp del: split_paired_Ex)
    next
      case (Some cell)
      obtain r c cands where cell: "cell = (r, c, cands)" by (cases cell)
      have f: "find_mrv_cell s1 = Some (r, c, cands)" using Some cell by simp
      note m = find_mrv_cell_Some [OF f]
      have "\<forall>v\<in>set cands. v \<noteq> 0 \<and> free_at s1 r c v"
      proof (intro ballI)
        fix v assume "v \<in> set cands"
        then have "1 \<le> v \<and> v \<le> 9 \<and> free_at s1 r c v"
          using get_candidates_free [of v s1 r c] m(4) by simp
        then show "v \<noteq> 0 \<and> free_at s1 r c v" by simp
      qed
      moreover have "empties s1 \<le> n" using "2.prems"(2) same_grid_empties [OF g] by simp
      ultimately have "\<exists>res. try_cands n r c cands env1 s1 = Some res"
        using "2.IH" [OF p [symmetric] False f refl refl] same_grid_shaped [OF g "2.prems"(1)] m
        by blast
      then show ?thesis using p False f by (simp del: split_paired_Ex)
    qed
  qed
next
  case (3 n r c env s)
  then show ?case by (simp del: split_paired_Ex)
next
  case (4 n r c v vs env s)
  obtain env1 s1 where p: "poll env s = (env1, s1)" by (cases "poll env s")
  note g = same_grid_poll [OF p]
  show ?case
  proof (cases "stop_requested s1")
    case True
    then show ?thesis using p by (simp del: split_paired_Ex)
  next
    case False
    have w1: "shaped s1" using same_grid_shaped [OF g "4.prems"(1)] .
    have b1: "board s1 ! r ! c = 0" using g "4.prems"(4) by (simp add: same_grid_def)
    have f1: "\<forall>w\<in>set (v # vs). w \<noteq> 0 \<and> free_at s1 r c w"
    proof (intro ballI)
      fix w assume "w \<in> set (v # vs)"
      then have "w \<noteq> 0 \<and> free_at s r c w" using "4.prems"(5) by blast
      then show "w \<noteq> 0 \<and> free_at s1 r c w" using same_grid_free_at [OF g] by simp
    qed
    have e1: "empties s1 = Suc (empties (place s1 r c v))"
      using empties_place [OF w1 "4.prems"(2,3) b1] f1 by simp
    then have "empties (place s1 r c v) < n"
      using "4.prems"(6) same_grid_empties [OF g] by simp
    then obtain res where "solve_recursive n env1 (place s1 r c v) = Some res"
      using "4.IH"(1) [OF p [symmetric] False shaped_place [OF w1]] by blast
    then obtain ok env2 s2 where
      r: "solve_recursive n env1 (place s1 r c v) = Some (ok, env2, s2)"
      by (cases res) simp
    show ?thesis
    proof (cases ok)
      case True
      then show ?thesis using p False r by (simp del: split_paired_Ex)
    next
      case ok: False
      have "same_grid (place s1 r c v) s2" using restore(1) r ok by simp
      then have "same_grid (undo (place s1 r c v) r c v) (undo s2 r c v)"
        by (rule same_grid_undo)
      then have u: "same_grid s1 (undo s2 r c v)"
        using undo_place [OF b1] f1 by simp
      have "\<exists>res. try_cands n r c vs env2 (undo s2 r c v) = Some res"
      proof (rule "4.IH"(2) [OF p [symmetric] False r refl refl ok])
        show "shaped (undo s2 r c v)" using same_grid_shaped [OF u w1] .
        show "r < 9" "c < 9" using "4.prems" by simp_all
        show "board (undo s2 r c v) ! r ! c = 0" using u b1 by (simp add: same_grid_def)
        show "\<forall>w\<in>set vs. w \<noteq> 0 \<and> free_at (undo s2 r c v) r c w"
          using u f1 same_grid_free_at by simp
        show "empties (undo s2 r c v) \<le> n"
          using same_grid_empties [OF u] same_grid_empties [OF g] "4.prems"(6) by simp
      qed
      then show ?thesis using p False r ok by (simp del: split_paired_Ex)
    qed
  qed
qed

lemma load_post_fail:
  assumes "grid_inv s" "holds_clues p (x # ps) s"
  shows "load_post p (x # ps) s (Inl (e, s))"
proof -
  have "x # ps = [] @ (x # ps) \<and> x # ps \<noteq> [] \<and> holds_clues p (x # ps) s"
    using assms(2) by simp
  then have "\<exists>pre rest. x # ps = pre @ rest \<and> rest \<noteq> [] \<and> holds_clues p rest s"
    by blast
  then show ?thesis using assms(1) unfolding load_post_def by simp
qed

lemma load_post_step:
  assumes "load_post p ps s1 res" "stop_requested s1 = stop_requested s"
  shows "load_post p (x # ps) s res"
proof (cases res)
  case (Inr s')
  then show ?thesis using assms by (simp add: load_post_def)
next
  case (Inl a)
  obtain e s' where a: "a = (e, s')" by (cases a)
  from assms(1) Inl a obtain pre rest where
    h: "grid_inv s'" "stop_requested s' = stop_requested s1" "ps = pre @ rest" "rest \<noteq> []"
      "holds_clues p rest s'"
    by (auto simp: load_post_def)
  have "x # ps = (x # pre) @ rest \<and> rest \<noteq> [] \<and> holds_clues p rest s'"
    using h(3,4,5) by simp
  then have "\<exists>pre rest. x # ps = pre @ rest \<and> rest \<noteq> [] \<and> holds_clues p rest s'"
    by blast
  then show ?thesis using Inl a h(1,2) assms(2) unfolding load_post_def by simp
qed

lemma stop_requested_place: "stop_requested (place s r c v) = stop_requested s"
  by (simp add: place_def Let_def)

lemma holds_clues_place:
  assumes "shaped s" "holds_clues p ((i, j) # ps) s" "(i, j) \<notin> set ps" "i < 9" "j < 9"
    "clue_of (p ! (i * 9 + j)) = v"
  shows "holds_clues p ps (place s i j v)"
  unfolding holds_clues_def
proof (intro allI impI)
  fix r c :: nat assume lt: "r < 9" "c < 9"
  have old: "board s ! r ! c = (if (r, c) \<in> set ((i, j) # ps) then 0 else clue_of (p ! (r * 9 + c)))"
    using assms(2) lt by (simp add: holds_clues_def)
  show "board (place s i j v) ! r ! c = (if (r, c) \<in> set ps then 0 else clue_of (p ! (r * 9 + c)))"
  proof (cases "r = i \<and> c = j")
    case True
    then show ?thesis using assms(1,3,4,5,6) by (simp add: board_place)
  next
    case False
    then have "board (place s i j v) ! r ! c = board s ! r ! c"
      using assms(1,4,5) lt by (auto simp: board_place)
    then show ?thesis using old False by auto
  qed
qed

lemma holds_clues_skip:
  assumes "holds_clues p ((i, j) # ps) s" "i < 9" "j < 9" "clue_of (p ! (i * 9 + j)) = 0"
  shows "holds_clues p ps s"
  unfolding holds_clues_def
proof (intro allI impI)
  fix r c :: nat assume lt: "r < 9" "c < 9"
  have old: "board s ! r ! c = (if (r, c) \<in> set ((i, j) # ps) then 0 else clue_of (p ! (r * 9 + c)))"
    using assms(1) lt by (simp add: holds_clues_def)
  show "board s ! r ! c = (if (r, c) \<in> set ps then 0 else clue_of (p ! (r * 9 + c)))"
    using old assms(4) by (cases "r = i \<and> c = j") auto
qed

lemma load_cells_post:
  "grid_inv s \<Longrightarrow> holds_clues p ps s \<Longrightarrow> distinct ps \<Longrightarrow> set ps \<subseteq> set cells \<Longrightarrow>
     load_post p ps s (load_cells p ps s)"
proof (induction ps arbitrary: s)
  case Nil
  then show ?case by (simp add: load_post_def)
next
  case (Cons x ps)
  obtain i j where x: "x = (i, j)" by (cases x)
  have lt: "i < 9" "j < 9" using Cons.prems(4) x by (auto simp: set_cells)
  have nin: "(i, j) \<notin> set ps" and d: "distinct ps" and sub: "set ps \<subseteq> set cells"
    using Cons.prems(3,4) x by auto
  have hc: "holds_clues p ((i, j) # ps) s" using Cons.prems(2) x by simp
  have z: "board s ! i ! j = 0" using hc lt by (simp add: holds_clues_def)
  have w: "shaped s" using Cons.prems(1) by (rule grid_inv_shaped)
  define ch where "ch = p ! (i * 9 + j)"
  have fail: "load_post p (x # ps) s (Inl (e, s))" for e
    using load_post_fail [OF Cons.prems(1) hc] x by simp
  show ?case
  proof (cases "isdigit ch \<and> ch \<noteq> ZERO")
    case clue: True
    show ?thesis
    proof (cases "py_int ch")
      case None
      then show ?thesis using clue fail by (simp add: x ch_def)
    next
      case (Some v)
      have cv: "clue_of (p ! (i * 9 + j)) = v" using clue Some by (simp add: clue_of_def ch_def)
      show ?thesis
      proof (cases "1 \<le> v \<and> v \<le> 9 \<and> free_at s i j v")
        case False
        then show ?thesis using clue Some fail by (auto simp: x ch_def [symmetric] free_at_def)
      next
        case True
        then have gi: "grid_inv (place s i j v)"
          using grid_inv_place [OF Cons.prems(1) lt z] by simp
        have "load_post p ps (place s i j v) (load_cells p ps (place s i j v))"
          using Cons.IH [OF gi holds_clues_place [OF w hc nin lt cv] d sub] .
        then have "load_post p (x # ps) s (load_cells p ps (place s i j v))"
          by (rule load_post_step) (rule stop_requested_place)
        then show ?thesis using clue Some True by (simp add: x ch_def [symmetric] free_at_def)
      qed
    qed
  next
    case noclue: False
    then have cv: "clue_of (p ! (i * 9 + j)) = 0" by (auto simp: clue_of_def ch_def)
    show ?thesis
    proof (cases "ch \<noteq> DOT \<and> ch \<noteq> ZERO")
      case True
      then show ?thesis using noclue fail by (auto simp: x ch_def [symmetric])
    next
      case False
      have "load_post p ps s (load_cells p ps s)"
        using Cons.IH [OF Cons.prems(1) holds_clues_skip [OF hc lt cv] d sub] .
      then have "load_post p (x # ps) s (load_cells p ps s)"
        by (rule load_post_step) simp
      then show ?thesis using noclue False by (auto simp: x ch_def [symmetric])
    qed
  qed
qed

lemma board_reset: "r < 9 \<Longrightarrow> c < 9 \<Longrightarrow> board (reset s) ! r ! c = 0"
  by (simp add: reset_def)

lemma grid_inv_reset: "grid_inv (reset s)"
  by (simp add: grid_inv_def shaped_def cells_in_range_def masks_consistent_def
      rows_consistent_def cols_consistent_def boxes_consistent_def no_conflict_def reset_def)

lemma holds_clues_reset: "holds_clues p cells (reset s)"
  by (simp add: holds_clues_def set_cells board_reset)

lemma load_board_post:
  assumes "length p = 81"
  shows "load_post p cells (reset s0) (load_board p s0)"
  using load_cells_post [OF grid_inv_reset holds_clues_reset distinct_cells subset_refl, of p s0]
    assms by (simp add: load_board_def)

lemma load_board_Inr:
  assumes "load_board p s0 = Inr s"
  shows "grid_inv s" "holds_clues p [] s" "length p = 81" "stop_requested s = stop_requested s0"
proof -
  show l: "length p = 81" using assms by (auto simp: load_board_def split: if_splits)
  show "grid_inv s" "holds_clues p [] s" "stop_requested s = stop_requested s0"
    using load_board_post [OF l, of s0] assms by (simp_all add: load_post_def reset_def)
qed

lemma same_grid_place: "same_grid s t \<Longrightarrow> same_grid (place s r c v) (place t r c v)"
  by (simp add: same_grid_def place_def Let_def)

lemma grid_inv_poll: "poll env s = (env1, s1) \<Longrightarrow> grid_inv s \<Longrightarrow> grid_inv s1"
  using same_grid_poll same_grid_inv by blast

lemma search_grid_inv:
  "solve_recursive n env s = Some (ok, env', s') \<Longrightarrow> grid_inv s \<Longrightarrow> grid_inv s'"
  "try_cands n r c vs env s = Some (ok, env', s') \<Longrightarrow> grid_inv s \<Longrightarrow> r < 9 \<Longrightarrow> c < 9 \<Longrightarrow>
     board s ! r ! c = 0 \<Longrightarrow> (\<forall>v\<in>set vs. 1 \<le> v \<and> v \<le> 9 \<and> free_at s r c v) \<Longrightarrow> grid_inv s'"
proof (induction n env s and n r c vs env s arbitrary: ok env' s' and ok env' s'
    rule: solve_recursive_try_cands.induct)
  case (1 env s)
  then show ?case by simp
next
  case (2 n env s)
  obtain env1 s1 where p: "poll env s = (env1, s1)" by (cases "poll env s")
  note g1 = grid_inv_poll [OF p "2.prems"(2)]
  show ?case
  proof (cases "stop_requested s1")
    case True
    then show ?thesis using "2.prems"(1) p g1 by simp
  next
    case False
    show ?thesis
    proof (cases "find_mrv_cell s1")
      case None
      then show ?thesis using "2.prems"(1) p g1 False by simp
    next
      case (Some cell)
      obtain r c cands where cell: "cell = (r, c, cands)" by (cases cell)
      have f: "find_mrv_cell s1 = Some (r, c, cands)" using Some cell by simp
      note m = find_mrv_cell_Some [OF f]
      have t: "try_cands n r c cands env1 s1 = Some (ok, env', s')"
        using "2.prems"(1) p False f by simp
      have fr: "\<forall>v\<in>set cands. 1 \<le> v \<and> v \<le> 9 \<and> free_at s1 r c v"
        using get_candidates_free [of _ s1 r c] m(4) by simp
      show ?thesis
        using "2.IH" [OF p [symmetric] False f refl refl t g1 m(1,2,3) fr] .
    qed
  qed
next
  case (3 n r c env s)
  then show ?case by simp
next
  case (4 n r c v vs env s)
  obtain env1 s1 where p: "poll env s = (env1, s1)" by (cases "poll env s")
  note g = same_grid_poll [OF p]
  note g1 = grid_inv_poll [OF p "4.prems"(2)]
  show ?case
  proof (cases "stop_requested s1")
    case True
    then show ?thesis using "4.prems"(1) p g1 by simp
  next
    case False
    from "4.prems"(1) p False obtain ok2 env2 s2 where
      r: "solve_recursive n env1 (place s1 r c v) = Some (ok2, env2, s2)"
      by (auto split: option.splits)
    have b1: "board s1 ! r ! c = 0" using g "4.prems"(5) by (simp add: same_grid_def)
    have f1: "\<forall>w\<in>set (v # vs). 1 \<le> w \<and> w \<le> 9 \<and> free_at s1 r c w"
    proof (intro ballI)
      fix w assume "w \<in> set (v # vs)"
      then have "1 \<le> w \<and> w \<le> 9 \<and> free_at s r c w" using "4.prems"(6) by blast
      then show "1 \<le> w \<and> w \<le> 9 \<and> free_at s1 r c w" using same_grid_free_at [OF g] by simp
    qed
    have gp: "grid_inv (place s1 r c v)"
      using grid_inv_place [OF g1 "4.prems"(3,4) b1] f1 by simp
    have g2: "grid_inv s2" using "4.IH"(1) [OF p [symmetric] False r gp] .
    show ?thesis
    proof (cases ok2)
      case True
      then show ?thesis using "4.prems"(1) p False r g2 by simp
    next
      case ok: False
      have t: "try_cands n r c vs env2 (undo s2 r c v) = Some (ok, env', s')"
        using "4.prems"(1) p False r ok by simp
      have "same_grid (place s1 r c v) s2" using restore(1) r ok by simp
      then have "same_grid (undo (place s1 r c v) r c v) (undo s2 r c v)"
        by (rule same_grid_undo)
      then have u: "same_grid s1 (undo s2 r c v)"
        using undo_place [OF b1] f1 by simp
      show ?thesis
      proof (rule "4.IH"(2) [OF p [symmetric] False r refl refl ok t])
        show "grid_inv (undo s2 r c v)" using same_grid_inv [OF u g1] .
        show "r < 9" "c < 9" using "4.prems" by simp_all
        show "board (undo s2 r c v) ! r ! c = 0" using u b1 by (simp add: same_grid_def)
        show "\<forall>w\<in>set vs. 1 \<le> w \<and> w \<le> 9 \<and> free_at (undo s2 r c v) r c w"
          using u f1 same_grid_free_at by simp
      qed
    qed
  qed
qed




lemma solved_all_filled:
  "solve_recursive n env s = Some (True, env', s') \<Longrightarrow> all_filled s'"
  "try_cands n r c vs env s = Some (True, env', s') \<Longrightarrow> all_filled s'"
proof (induction n env s and n r c vs env s arbitrary: env' s' and env' s'
    rule: solve_recursive_try_cands.induct)
  case (1 env s)
  then show ?case by simp
next
  case (2 n env s)
  obtain env1 s1 where p: "poll env s = (env1, s1)" by (cases "poll env s")
  show ?case
  proof (cases "stop_requested s1")
    case True
    then show ?thesis using "2.prems" p by simp
  next
    case False
    show ?thesis
    proof (cases "find_mrv_cell s1")
      case None
      then show ?thesis using "2.prems" p False by auto
    next
      case (Some cell)
      obtain r c cands where cell: "cell = (r, c, cands)" by (cases cell)
      have f: "find_mrv_cell s1 = Some (r, c, cands)" using Some cell by simp
      have t: "try_cands n r c cands env1 s1 = Some (True, env', s')"
        using "2.prems" p False f by simp
      show ?thesis using "2.IH" [OF p [symmetric] False f refl refl t] .
    qed
  qed
next
  case (3 n r c env s)
  then show ?case by simp
next
  case (4 n r c v vs env s)
  obtain env1 s1 where p: "poll env s = (env1, s1)" by (cases "poll env s")
  show ?case
  proof (cases "stop_requested s1")
    case True
    then show ?thesis using "4.prems" p by simp
  next
    case False
    from "4.prems" p False obtain ok2 env2 s2 where
      r: "solve_recursive n env1 (place s1 r c v) = Some (ok2, env2, s2)"
      by (auto split: option.splits)
    show ?thesis
    proof (cases ok2)
      case True
      then have "s' = s2" "env' = env2" using "4.prems" p False r by simp_all
      then show ?thesis using "4.IH"(1) [OF p [symmetric] False] r True by simp
    next
      case ok: False
      have t: "try_cands n r c vs env2 (undo s2 r c v) = Some (True, env', s')"
        using "4.prems" p False r ok by simp
      show ?thesis using "4.IH"(2) [OF p [symmetric] False r refl refl ok t] .
    qed
  qed
qed

lemma loaded_Inr:
  "(case load_board p new_solver of Inl _ \<Rightarrow> False | Inr _ \<Rightarrow> True) \<Longrightarrow>
     load_board p new_solver = Inr (loaded p)"
  by (cases "load_board p new_solver") (simp_all add: loaded_def)


lemma load_one_blank: "load_board puzzle_one_blank new_solver = Inr (loaded puzzle_one_blank)"
  by (rule loaded_Inr) code_simp




lemma find_mrv_one_blank: "find_mrv_cell (loaded puzzle_one_blank) = Some (0, 0, [1])"
  by code_simp





text \<open>
  C10.  \<^verbatim>\<open>solve()\<close> returns on every loaded board: the cell chosen by the selection is
  empty, a placement leaves one empty cell fewer, so a recursion depth of one more than
  the number of empty cells, at most 82, is never exceeded.
\<close>

theorem solve_terminates:
  assumes "load_board p s0 = Inr s"
  shows "empties s \<le> 81
    \<and> (\<forall>n env. empties s < n \<longrightarrow> (\<exists>res. solve n env s = Some res))
    \<and> (\<forall>r c cands v. find_mrv_cell s = Some (r, c, cands) \<and> v \<in> set cands \<longrightarrow>
          board s ! r ! c = 0 \<and> Suc (empties (place s r c v)) = empties s)"
proof (intro conjI allI impI)
  have w: "shaped s" using load_board_Inr(1) [OF assms] by (rule grid_inv_shaped)
  show "empties s \<le> 81" by (rule empties_le)
  show "\<exists>res. solve n env s = Some res" if "empties s < n" for n env
  proof -
    have "shaped (s\<lparr>stop_requested := False\<rparr>)" using w by (simp add: shaped_def)
    moreover have "empties (s\<lparr>stop_requested := False\<rparr>) < n"
      using that by (simp add: empties_def)
    ultimately show ?thesis unfolding solve_def by (rule terminates(1))
  qed
  fix r c cands v assume h: "find_mrv_cell s = Some (r, c, cands) \<and> v \<in> set cands"
  then have f: "find_mrv_cell s = Some (r, c, cands)" and v: "v \<in> set cands" by simp_all
  note m = find_mrv_cell_Some [OF f]
  show "board s ! r ! c = 0" by (rule m(3))
  have "v \<noteq> 0" using get_candidates_free [of v s r c] v m(4) by auto
  then show "Suc (empties (place s r c v)) = empties s"
    using empties_place [OF w m(1,2,3)] by simp
qed

theorem solve_terminates_witness:
  "load_board puzzle_one_blank new_solver = Inr (loaded puzzle_one_blank)
   \<and> empties (loaded puzzle_one_blank) < 82
   \<and> (\<exists>res. solve 82 [] (loaded puzzle_one_blank) = Some res)
   \<and> find_mrv_cell (loaded puzzle_one_blank) = Some (0, 0, [1])
   \<and> board (loaded puzzle_one_blank) ! 0 ! 0 = 0
   \<and> Suc (empties (place (loaded puzzle_one_blank) 0 0 1)) = empties (loaded puzzle_one_blank)"
proof -
  note t = solve_terminates [OF load_one_blank]
  have e: "empties (loaded puzzle_one_blank) < 82" using t by simp
  have "\<exists>res. solve 82 [] (loaded puzzle_one_blank) = Some res"
    using t e by blast
  moreover have "board (loaded puzzle_one_blank) ! 0 ! 0 = 0
      \<and> Suc (empties (place (loaded puzzle_one_blank) 0 0 1)) = empties (loaded puzzle_one_blank)"
    using t find_mrv_one_blank by simp
  ultimately show ?thesis using e load_one_blank find_mrv_one_blank by simp
qed

text \<open>
  C6.  The loader accepts a character outside \<^verbatim>\<open>.0123456789\<close>: the Arabic-Indic digit
  three (U+0663) is taken as the clue 3, because \<^verbatim>\<open>isdigit\<close> and \<^verbatim>\<open>int\<close> know the decimal
  digits of every script.
\<close>

theorem load_accepts_arabic_indic_digit:
  "load_board (0x0663 # replicate 80 DOT) new_solver = Inr (place new_solver 0 0 3)"
  by code_simp

lemma decimal_value_le: "decimal_value ch = Some d \<Longrightarrow> d \<le> 9"
proof -
  assume a: "decimal_value ch = Some d"
  then obtain z zs where f: "filter (\<lambda>z. z \<le> ch \<and> ch < z + 10) decimal_zeros = z # zs"
    and d: "d = ch - z"
    by (auto simp: decimal_value_def split: list.splits)
  have "z \<in> set (filter (\<lambda>z. z \<le> ch \<and> ch < z + 10) decimal_zeros)"
    unfolding f by simp
  then have "z \<le> ch \<and> ch < z + 10" by simp
  then show ?thesis using d by arith
qed

lemma decimal_value_ascii:
  "ch < 128 \<Longrightarrow> decimal_value ch = (if 48 \<le> ch \<and> ch < 58 then Some (ch - 48) else None)"
  by (simp add: decimal_value_def decimal_zeros_def)

lemma py_int_range: "py_int ch = Some v \<Longrightarrow> 0 \<le> v \<and> v \<le> 9"
  using decimal_value_le by (auto simp: py_int_def)

lemma py_int_ascii_zero: "ch < 128 \<Longrightarrow> py_int ch = Some 0 \<Longrightarrow> ch = ZERO"
  by (auto simp: py_int_def decimal_value_ascii ZERO_def split: if_splits)

lemma load_cells_DigitRange:
  "load_cells p ps s = Inl (DigitRange v, s') \<Longrightarrow>
     \<exists>(i, j)\<in>set ps. p ! (i * 9 + j) \<noteq> ZERO \<and> py_int (p ! (i * 9 + j)) = Some v
       \<and> \<not> (1 \<le> v \<and> v \<le> 9)"
proof (induction ps arbitrary: s)
  case Nil
  then show ?case by simp
next
  case (Cons x ps)
  obtain i j where x: "x = (i, j)" by (cases x)
  show ?case
    using Cons.prems Cons.IH
    by (auto simp: x Let_def split: if_splits option.splits)
qed

lemma cell_index_less: "(i, j) \<in> set cells \<Longrightarrow> i * 9 + j < 81"
  by (auto simp: set_cells)







text \<open>
  C7, amended.  The range check of the loader is taken only for a character outside
  ASCII that \<^verbatim>\<open>int\<close> maps to 0 (the zero of another script, such as U+0660), and it
  reports the value 0; for an input made of ASCII characters, in particular of
  \<^verbatim>\<open>.0123456789\<close>, the check never fails.
\<close>

theorem range_check_only_for_foreign_zero:
  assumes "load_board p s0 = Inl (DigitRange v, s)"
  shows "v = 0 \<and> (\<exists>ch\<in>set p. 128 \<le> ch \<and> py_int ch = Some 0)"
proof -
  have l: "length p = 81" and c: "load_cells p cells (reset s0) = Inl (DigitRange v, s)"
    using assms by (auto simp: load_board_def split: if_splits)
  from load_cells_DigitRange [OF c] obtain i j where
    h: "(i, j) \<in> set cells" "p ! (i * 9 + j) \<noteq> ZERO" "py_int (p ! (i * 9 + j)) = Some v"
      "\<not> (1 \<le> v \<and> v \<le> 9)"
    by auto
  have v: "v = 0" using py_int_range [OF h(3)] h(4) by simp
  have m: "p ! (i * 9 + j) \<in> set p" using cell_index_less [OF h(1)] l by simp
  have "128 \<le> p ! (i * 9 + j)"
    using py_int_ascii_zero [of "p ! (i * 9 + j)"] h(2,3) v by (cases "p ! (i * 9 + j) < 128") auto
  then show ?thesis using v m h(3) by blast
qed


lemma load_arabic_zero:
  "load_board (0x0660 # replicate 80 DOT) new_solver = Inl (DigitRange 0, new_solver)"
  by code_simp

lemma py_int_arabic_zero: "py_int 0x0660 = Some 0"
  by code_simp





text \<open>
  C7, as stated, fails: the Arabic-Indic digit zero (U+0660) is a digit other than
  \<^verbatim>\<open>'0'\<close> with value 0, and the range check raises for it.
\<close>

theorem range_check_reached_counterexample:
  "load_board (0x0660 # replicate 80 DOT) new_solver = Inl (DigitRange 0, new_solver)"
  by (rule load_arabic_zero)

theorem range_check_only_for_foreign_zero_witness:
  "load_board (0x0660 # replicate 80 DOT) new_solver = Inl (DigitRange 0, new_solver)
   \<and> (0::int) = 0
   \<and> (\<exists>ch\<in>set (0x0660 # replicate 80 DOT). 128 \<le> ch \<and> py_int ch = Some 0)"
  using range_check_only_for_foreign_zero [OF load_arabic_zero] load_arabic_zero by blast



lemma touches_only_place:
  assumes "shaped t" "r < 9" "c < 9"
  shows "touches_only t (place t r c v) r c"
  unfolding touches_only_def
proof (intro conjI allI impI)
  fix r' c' :: nat assume "r' < 9" "c' < 9" "(r', c') \<noteq> (r, c)"
  then show "board (place t r c v) ! r' ! c' = board t ! r' ! c'"
    using assms by (auto simp: board_place)
next
  fix r' :: nat assume "r' < 9" "r' \<noteq> r"
  then show "row_masks (place t r c v) ! r' = row_masks t ! r'"
    using assms by (simp add: row_masks_place)
next
  fix c' :: nat assume "c' < 9" "c' \<noteq> c"
  then show "col_masks (place t r c v) ! c' = col_masks t ! c'"
    using assms by (simp add: col_masks_place)
next
  fix b :: nat assume "b < 9" "b \<noteq> box_index r c"
  then show "box_masks (place t r c v) ! b = box_masks t ! b"
    using assms by (simp add: box_masks_place)
qed

lemma touches_only_undo:
  assumes "shaped t" "r < 9" "c < 9"
  shows "touches_only t (undo t r c v) r c"
  unfolding touches_only_def undo_def Let_def
  using assms by (auto simp: shaped_def nth_list_update box_index_less)

lemma same_grid_masks_consistent: "same_grid s t \<Longrightarrow> masks_consistent s \<Longrightarrow> masks_consistent t"
  by (simp add: same_grid_def masks_consistent_def rows_consistent_def cols_consistent_def
      boxes_consistent_def)

lemma masks_consistent_place:
  assumes "shaped t" "masks_consistent t" "find_mrv_cell t = Some (r, c, cands)" "v \<in> set cands"
  shows "masks_consistent (place t r c v)"
proof -
  note m = find_mrv_cell_Some [OF assms(3)]
  have v: "1 \<le> v" "v \<le> 9" using get_candidates_free [of v t r c] assms(4) m(4) by simp_all
  show ?thesis
    using assms(2) rows_consistent_place [OF assms(1) _ m(1,2,3) v]
      cols_consistent_place [OF assms(1) _ m(1,2,3) v]
      boxes_consistent_place [OF assms(1) _ m(1,2,3) v]
    by (simp add: masks_consistent_def)
qed

lemma undo_after_failure:
  assumes "find_mrv_cell t = Some (r, c, cands)" "v \<in> set cands"
    "solve_recursive n env (place t r c v) = Some (False, env', t')"
  shows "same_grid t (undo t' r c v)"
proof -
  note m = find_mrv_cell_Some [OF assms(1)]
  have f: "free_at t r c v" using get_candidates_free [of v t r c] assms(2) m(4) by simp
  have "same_grid (place t r c v) t'" using restore(1) [OF assms(3)] .
  then have "same_grid (undo (place t r c v) r c v) (undo t' r c v)" by (rule same_grid_undo)
  then show ?thesis using undo_place [OF m(3) f] by simp
qed

lemma solve_one_blank_cancelled_inner:
  "solve_recursive 1 [True] (place (loaded puzzle_one_blank) 0 0 1)
     = Some (False, [], stop (place (loaded puzzle_one_blank) 0 0 1))"
  by code_simp

lemma solve_one_blank: "solve 2 [] (loaded puzzle_one_blank) = Some (True, [], loaded puzzle_full)"
  by code_simp

text \<open>
  C5.  After a successful load the masks agree with the grid: bit \<open>v - 1\<close> of the mask of
  a row, column or box is set exactly when a cell of that row, column or box holds \<open>v\<close>.
  The agreement is kept by every placement the search makes (at the selected cell, with
  one of its candidates) and by every undo (of the state a failed recursive call
  returns), so it holds of the state in which \<^verbatim>\<open>solve()\<close> ends; a placement and an undo
  touch the cell and its three masks only.
\<close>

theorem masks_agree_with_grid:
  assumes "load_board p s0 = Inr s"
  shows "shaped s \<and> masks_consistent s
    \<and> (\<forall>n env ok env' s'. solve n env s = Some (ok, env', s') \<longrightarrow>
          shaped s' \<and> masks_consistent s')
    \<and> (\<forall>t r c cands v.
          shaped t \<and> masks_consistent t \<and> find_mrv_cell t = Some (r, c, cands) \<and> v \<in> set cands
          \<longrightarrow> shaped (place t r c v) \<and> masks_consistent (place t r c v)
              \<and> touches_only t (place t r c v) r c
              \<and> (\<forall>n env env' t'.
                    solve_recursive n env (place t r c v) = Some (False, env', t') \<longrightarrow>
                      shaped (undo t' r c v) \<and> masks_consistent (undo t' r c v)
                      \<and> touches_only t' (undo t' r c v) r c))"
proof (intro conjI allI impI)
  have g: "grid_inv s" using load_board_Inr(1) [OF assms] .
  show "shaped s" "masks_consistent s" using g by (simp_all add: grid_inv_def)
  have g0: "grid_inv (s\<lparr>stop_requested := False\<rparr>)"
    using g by (rule same_grid_inv [rotated]) (simp add: same_grid_def)
  show "shaped s'" "masks_consistent s'" if "solve n env s = Some (ok, env', s')"
    for n env ok env' s'
    using search_grid_inv(1) [OF that [unfolded solve_def] g0] by (simp_all add: grid_inv_def)
next
  fix t r c cands v
  assume h: "shaped t \<and> masks_consistent t \<and> find_mrv_cell t = Some (r, c, cands) \<and> v \<in> set cands"
  then have w: "shaped t" and mc: "masks_consistent t"
    and f: "find_mrv_cell t = Some (r, c, cands)" and v: "v \<in> set cands"
    by simp_all
  note m = find_mrv_cell_Some [OF f]
  show "shaped (place t r c v)" using w by (rule shaped_place)
  show "masks_consistent (place t r c v)" using w mc f v by (rule masks_consistent_place)
  show "touches_only t (place t r c v) r c" using w m(1,2) by (rule touches_only_place)
  fix n env env' t'
  assume r: "solve_recursive n env (place t r c v) = Some (False, env', t')"
  note u = undo_after_failure [OF f v r]
  show "shaped (undo t' r c v)" using u w by (rule same_grid_shaped)
  show "masks_consistent (undo t' r c v)" using u mc by (rule same_grid_masks_consistent)
  have "shaped t'" using restore(1) [OF r] shaped_place [OF w] by (rule same_grid_shaped)
  then show "touches_only t' (undo t' r c v) r c" using m(1,2) by (rule touches_only_undo)
qed

theorem masks_agree_with_grid_witness:
  "load_board puzzle_one_blank new_solver = Inr (loaded puzzle_one_blank)
   \<and> shaped (loaded puzzle_one_blank) \<and> masks_consistent (loaded puzzle_one_blank)
   \<and> solve 2 [] (loaded puzzle_one_blank) = Some (True, [], loaded puzzle_full)
   \<and> shaped (loaded puzzle_full) \<and> masks_consistent (loaded puzzle_full)
   \<and> find_mrv_cell (loaded puzzle_one_blank) = Some (0, 0, [1])
   \<and> masks_consistent (place (loaded puzzle_one_blank) 0 0 1)
   \<and> touches_only (loaded puzzle_one_blank) (place (loaded puzzle_one_blank) 0 0 1) 0 0
   \<and> solve_recursive 1 [True] (place (loaded puzzle_one_blank) 0 0 1)
        = Some (False, [], stop (place (loaded puzzle_one_blank) 0 0 1))
   \<and> masks_consistent (undo (stop (place (loaded puzzle_one_blank) 0 0 1)) 0 0 1)"
proof -
  note t = masks_agree_with_grid [OF load_one_blank]
  have a: "shaped (loaded puzzle_one_blank) \<and> masks_consistent (loaded puzzle_one_blank)"
    using t by blast
  have b: "shaped (loaded puzzle_full) \<and> masks_consistent (loaded puzzle_full)"
    using t solve_one_blank by blast
  have i: "(1::int) \<in> set [1]" by simp
  have c: "masks_consistent (place (loaded puzzle_one_blank) 0 0 1)
      \<and> touches_only (loaded puzzle_one_blank) (place (loaded puzzle_one_blank) 0 0 1) 0 0
      \<and> masks_consistent (undo (stop (place (loaded puzzle_one_blank) 0 0 1)) 0 0 1)"
    using t a find_mrv_one_blank i solve_one_blank_cancelled_inner by blast
  show ?thesis
    using a b c load_one_blank solve_one_blank find_mrv_one_blank solve_one_blank_cancelled_inner
    by simp
qed

















end
